theory Spec2Isabelle
  imports Complex_Main
begin

unbundle bit_operations_syntax

section \<open>The 2048 move engine of main.js\<close>

text \<open>
  The engine keeps a 4x4 grid of tile exponents in a \<open>Uint8Array\<close> of 16 cells
  (0 is the empty cell, \<open>n > 0\<close> shows as \<open>2 ^ n\<close>), a score and a best score.
  Rows and columns travel as packed numbers of four 4-bit fields, index 0 in
  the most significant nibble. JavaScript numbers are modelled as \<open>nat\<close> for
  packed rows and cells (every bit operation of the source works on values
  below \<open>2 ^ 31\<close>, where the 32-bit operators agree with the operations on
  \<open>nat\<close>) and as \<open>int\<close> for scores.
\<close>

subsection \<open>Packing\<close>

text \<open>
  \<open>function packRow(arr){ return (arr[0]<<12) | (arr[1]<<8) | (arr[2]<<4) | arr[3]; }\<close>
\<close>

definition packRow :: "nat list \<Rightarrow> nat" where
  "packRow arr =
     push_bit 12 (arr ! 0) OR push_bit 8 (arr ! 1) OR push_bit 4 (arr ! 2) OR arr ! 3"

text \<open>
  \<open>function unpackRow(row){ return [(row>>>12)&0xF, (row>>>8)&0xF, (row>>>4)&0xF, row&0xF]; }\<close>
\<close>

definition unpackRow :: "nat \<Rightarrow> nat list" where
  "unpackRow rw =
     [drop_bit 12 rw AND 15, drop_bit 8 rw AND 15, drop_bit 4 rw AND 15, rw AND 15]"

subsection \<open>Slide and merge of one line\<close>

text \<open>
  \<open>1 << newExp\<close> is a 32-bit shift: the count is taken modulo 32 and bit 31 is
  the sign bit.
\<close>

definition js_shl1 :: "nat \<Rightarrow> int" where
  "js_shl1 n = (if n mod 32 = 31 then - (2 ^ 31) else 2 ^ (n mod 32))"

text \<open>
  The \<open>for\<close> loop of \<open>slideAndMerge\<close>, with its index \<open>i\<close>, the array
  \<open>merged\<close> and the running \<open>gained\<close>.
\<close>

function merge_loop :: "nat list \<Rightarrow> nat \<Rightarrow> nat list \<Rightarrow> int \<Rightarrow> nat list \<times> int" where
  "merge_loop nonZero i merged g =
     (if i < length nonZero then
        (if i + 1 < length nonZero \<and> nonZero ! i \<noteq> 0 \<and> nonZero ! i = nonZero ! (i + 1)
         then (let newExp = nonZero ! i + 1
               in merge_loop nonZero (i + 2) (merged @ [newExp]) (g + js_shl1 newExp))
         else merge_loop nonZero (i + 1) (merged @ [nonZero ! i]) g)
      else (merged, g))"
  by pat_completeness auto
termination
  by (relation "measure (\<lambda>(nonZero, i, merged, g). length nonZero - i)") auto

declare merge_loop.simps [simp del]

text \<open>\<open>while(merged.length < 4) merged.push(0);\<close>\<close>

function pad_loop :: "nat list \<Rightarrow> nat list" where
  "pad_loop merged = (if length merged < 4 then pad_loop (merged @ [0]) else merged)"
  by pat_completeness auto
termination
  by (relation "measure (\<lambda>merged. 4 - length merged)") auto

declare pad_loop.simps [simp del]

text \<open>\<open>slideAndMerge(exps)\<close> returns \<open>{ cells: merged, gained }\<close>, here a pair.\<close>

definition slideAndMerge :: "nat list \<Rightarrow> nat list \<times> int" where
  "slideAndMerge exps =
     (let nonZero = filter (\<lambda>x. x \<noteq> 0) exps;
          (merged, g) = merge_loop nonZero 0 [] 0
      in (pad_loop merged, g))"

subsection \<open>The row tables\<close>

record entry =
  row :: nat
  gained :: int

definition DIR_LEFT :: int where "DIR_LEFT = 0"
definition DIR_RIGHT :: int where "DIR_RIGHT = 1"
definition DIR_UP :: int where "DIR_UP = 2"
definition DIR_DOWN :: int where "DIR_DOWN = 3"

text \<open>The two entries that one iteration of \<open>buildRowTable\<close> stores for \<open>rw\<close>.\<close>

definition left_entry :: "nat \<Rightarrow> entry" where
  "left_entry rw =
     (let a = drop_bit 12 rw AND 15; b = drop_bit 8 rw AND 15;
          c = drop_bit 4 rw AND 15; d = rw AND 15;
          left = slideAndMerge [a, b, c, d]
      in \<lparr>row = packRow (fst left), gained = snd left\<rparr>)"

definition right_entry :: "nat \<Rightarrow> entry" where
  "right_entry rw =
     (let a = drop_bit 12 rw AND 15; b = drop_bit 8 rw AND 15;
          c = drop_bit 4 rw AND 15; d = rw AND 15;
          right = slideAndMerge [d, c, b, a]
      in \<lparr>row = packRow (rev (fst right)), gained = snd right\<rparr>)"

text \<open>
  \<open>moveTables[t][rw]\<close> after \<open>buildRowTable()\<close>: the loop fills the indices
  \<open>0..65535\<close> of the LEFT and RIGHT tables only; every other slot is
  \<open>undefined\<close>, here \<open>None\<close>.
\<close>

definition moveTables :: "int \<Rightarrow> nat \<Rightarrow> entry option" where
  "moveTables t rw =
     (if rw < 65536 then
        (if t = DIR_LEFT then Some (left_entry rw)
         else if t = DIR_RIGHT then Some (right_entry rw)
         else None)
      else None)"

subsection \<open>The grid\<close>

text \<open>
  A store into the \<open>Uint8Array\<close> keeps the low 8 bits; a store outside the
  array is ignored. The array is created once with 16 cells and never
  resized, and every index the engine computes is below 16.
\<close>

definition u8_store :: "nat list \<Rightarrow> nat \<Rightarrow> nat \<Rightarrow> nat list" where
  "u8_store g i v = (if i < length g then g[i := v mod 256] else g)"

definition getRow :: "nat list \<Rightarrow> nat \<Rightarrow> nat" where
  "getRow g r = packRow [g ! (r * 4), g ! (r * 4 + 1), g ! (r * 4 + 2), g ! (r * 4 + 3)]"

definition setRow :: "nat \<Rightarrow> nat \<Rightarrow> nat list \<Rightarrow> nat list" where
  "setRow r packed g =
     (let g1 = u8_store g (r * 4) (drop_bit 12 packed AND 15);
          g2 = u8_store g1 (r * 4 + 1) (drop_bit 8 packed AND 15);
          g3 = u8_store g2 (r * 4 + 2) (drop_bit 4 packed AND 15)
      in u8_store g3 (r * 4 + 3) (packed AND 15))"

definition getCol :: "nat list \<Rightarrow> nat \<Rightarrow> nat" where
  "getCol g c =
     push_bit 12 (g ! c) OR push_bit 8 (g ! (4 + c)) OR push_bit 4 (g ! (8 + c)) OR g ! (12 + c)"

definition setCol :: "nat \<Rightarrow> nat \<Rightarrow> nat list \<Rightarrow> nat list" where
  "setCol c packed g =
     (let g1 = u8_store g c (drop_bit 12 packed AND 15);
          g2 = u8_store g1 (4 + c) (drop_bit 8 packed AND 15);
          g3 = u8_store g2 (8 + c) (drop_bit 4 packed AND 15)
      in u8_store g3 (12 + c) (packed AND 15))"

text \<open>
  The data-model invariant of the grid: 16 cells, each an exponent in
  \<open>[0,15]\<close>. Every store of the engine writes a masked nibble, 1 or 2.
\<close>

definition wf_grid :: "nat list \<Rightarrow> bool" where
  "wf_grid g = (length g = 16 \<and> list_all (\<lambda>x. x < 16) g)"

subsection \<open>Spawning\<close>

text \<open>
  \<open>Math.random()\<close> is an input of the model: a number \<open>u\<close> with
  \<open>0 \<le> u < 1\<close>. \<open>(u * n) | 0\<close> truncates the product, taken exactly
  here. The source truncates the rounded double product, which for some
  draws is the next index (\<open>u = 0.8333333333333333\<close>, \<open>n = 6\<close>: 5 where the
  exact product gives 4); for \<open>n \<le> 16\<close> it stays below \<open>n\<close>, so the source
  too picks one of the empty cells.
\<close>

definition randomEmptyCellIndex :: "nat list \<Rightarrow> rat \<Rightarrow> int" where
  "randomEmptyCellIndex g u =
     (let empties = filter (\<lambda>i. g ! i = 0) [0..<16]
      in if length empties = 0 then - 1
         else int (empties ! nat \<lfloor>u * of_nat (length empties)\<rfloor>))"

text \<open>
  \<open>addRandomTile\<close> draws \<open>u1\<close> for the cell and \<open>u2\<close> for the value; the
  literal \<open>0.9\<close> is the double nearest to nine tenths.
\<close>

definition addRandomTile :: "nat list \<Rightarrow> rat \<Rightarrow> rat \<Rightarrow> nat list \<times> bool" where
  "addRandomTile g u1 u2 =
     (let idx = randomEmptyCellIndex g u1
      in if idx < 0 then (g, False)
         else (u8_store g (nat idx)
                 (if u2 < 8106479329266893 / 9007199254740992 then 1 else 2), True))"

subsection \<open>Terminal detection\<close>

text \<open>The inner loop \<open>for(i=0;i<3;i++) if(row[i]!==0 && row[i]===row[i+1]) return true;\<close>\<close>

definition line_has_merge :: "nat list \<Rightarrow> bool" where
  "line_has_merge cs = list_ex (\<lambda>i. cs ! i \<noteq> 0 \<and> cs ! i = cs ! (i + 1)) [0, 1, 2]"

definition canMove :: "nat list \<Rightarrow> bool" where
  "canMove g =
     (if list_ex (\<lambda>i. g ! i = 0) [0..<16] then True
      else if list_ex (\<lambda>r. line_has_merge (unpackRow (getRow g r))) [0, 1, 2, 3] then True
      else if list_ex (\<lambda>c. line_has_merge (unpackRow (getCol g c))) [0, 1, 2, 3] then True
      else False)"

subsection \<open>Moves\<close>

record game =
  grid :: "nat list"
  score :: int
  best :: int

datatype error = TypeError

text \<open>
  The four branches of \<open>move\<close> run the same loop over the lines 0..3 with
  their own accessors and table: read the line, look it up (reading \<open>.row\<close>
  of an \<open>undefined\<close> slot throws), write the result back when it differs,
  add the gain. The loop state is the grid, \<open>moved\<close> and \<open>gained\<close>.
\<close>

fun move_loop ::
  "(nat list \<Rightarrow> nat \<Rightarrow> nat) \<Rightarrow> (nat \<Rightarrow> nat \<Rightarrow> nat list \<Rightarrow> nat list) \<Rightarrow> int \<Rightarrow>
   nat list \<Rightarrow> nat list \<times> bool \<times> int \<Rightarrow> error + nat list \<times> bool \<times> int" where
  "move_loop rd wr t [] acc = Inr acc"
| "move_loop rd wr t (l # ls) (g, moved, gn) =
     (let packed = rd g l in
      case moveTables t packed of
        None \<Rightarrow> Inl TypeError
      | Some res \<Rightarrow>
          move_loop rd wr t ls
            (if packed \<noteq> row res then wr l (row res) g else g,
             moved \<or> packed \<noteq> row res,
             gn + gained res))"

text \<open>The \<open>if / else if\<close> chain on \<open>dir\<close>; any other value runs no loop.\<close>

definition move_lines :: "nat list \<Rightarrow> int \<Rightarrow> error + nat list \<times> bool \<times> int" where
  "move_lines g dir =
     (if dir = DIR_LEFT then move_loop getRow setRow DIR_LEFT [0, 1, 2, 3] (g, False, 0)
      else if dir = DIR_RIGHT then move_loop getRow setRow DIR_RIGHT [0, 1, 2, 3] (g, False, 0)
      else if dir = DIR_UP then move_loop getCol setCol DIR_LEFT [0, 1, 2, 3] (g, False, 0)
      else if dir = DIR_DOWN then move_loop getCol setCol DIR_RIGHT [0, 1, 2, 3] (g, False, 0)
      else Inr (g, False, 0))"

text \<open>
  \<open>move(dir)\<close>: the state after the call and the returned \<open>moved\<close>. The
  write of the best score to \<open>localStorage\<close> is outside the model.
\<close>

definition move :: "game \<Rightarrow> int \<Rightarrow> rat \<Rightarrow> rat \<Rightarrow> error + game \<times> bool" where
  "move s dir u1 u2 =
     (case move_lines (grid s) dir of
        Inl e \<Rightarrow> Inl e
      | Inr (g, moved, gn) \<Rightarrow>
          if moved then
            (let sc = score s + gn;
                 b = (if sc > best s then sc else best s)
             in Inr (\<lparr>grid = fst (addRandomTile g u1 u2), score = sc, best = b\<rparr>, True))
          else Inr (\<lparr>grid = g, score = score s, best = best s\<rparr>, False))"

text \<open>
  \<open>reset()\<close>: \<open>grid.fill(0); score = 0; addRandomTile(); addRandomTile();\<close>
  (rendering is outside the model).
\<close>

definition reset :: "game \<Rightarrow> rat \<Rightarrow> rat \<Rightarrow> rat \<Rightarrow> rat \<Rightarrow> game" where
  "reset s u1 u2 u3 u4 =
     (let g0 = map (\<lambda>_. 0) (grid s);
          g1 = fst (addRandomTile g0 u1 u2);
          g2 = fst (addRandomTile g1 u3 u4)
      in \<lparr>grid = g2, score = 0, best = best s\<rparr>)"

subsection \<open>The slide-and-merge rule as the specification words it\<close>

text \<open>
  On the cells left after the zeros are dropped: a cell equal to its next
  neighbour is replaced, with that neighbour, by one cell of exponent + 1,
  and the scan goes on after the consumed neighbour; the gain of each merge
  is \<open>2 ^ (exponent + 1)\<close>.
\<close>

fun ref_cells :: "nat list \<Rightarrow> nat list" where
  "ref_cells (x # y # xs) =
     (if x = y then (x + 1) # ref_cells xs else x # ref_cells (y # xs))"
| "ref_cells xs = xs"

fun ref_gain :: "nat list \<Rightarrow> int" where
  "ref_gain (x # y # xs) =
     (if x = y then 2 ^ (x + 1) + ref_gain xs else ref_gain (y # xs))"
| "ref_gain xs = 0"

definition ref_slide :: "nat list \<Rightarrow> nat list \<times> int" where
  "ref_slide exps =
     (let kept = filter (\<lambda>x. x \<noteq> 0) exps; cs = ref_cells kept
      in (cs @ replicate (4 - length cs) 0, ref_gain kept))"

subsection \<open>Notions of the specification\<close>

text \<open>The mirrored row: the four nibbles in reverse order.\<close>

definition mirror :: "nat \<Rightarrow> nat" where
  "mirror rw = packRow (rev (unpackRow rw))"

text \<open>
  The LEFT transform is idempotent at \<open>rw\<close>: looking up the row of the entry
  of \<open>rw\<close> gives that row again.
\<close>

definition left_idempotent_at :: "nat \<Rightarrow> bool" where
  "left_idempotent_at rw =
     (case moveTables DIR_LEFT rw of
        None \<Rightarrow> False
      | Some e \<Rightarrow>
          (case moveTables DIR_LEFT (row e) of
             None \<Rightarrow> False
           | Some e' \<Rightarrow> row e' = row e))"

text \<open>The number of non-empty cells of a grid.\<close>

definition nonempty_count :: "nat list \<Rightarrow> nat" where
  "nonempty_count g = length (filter (\<lambda>x. x \<noteq> 0) g)"

section \<open>Packed rows as base-16 numbers\<close>

lemma and_15: "(x::nat) AND 15 = x mod 16"
proof -
  have "x AND mask 4 = x mod 2 ^ 4" by (simp only: take_bit_eq_mask [symmetric] take_bit_eq_mod)
  then show ?thesis by (simp add: mask_eq_exp_minus_1)
qed

lemma or_low:
  fixes x y :: nat
  assumes "x < 2 ^ n"
  shows "push_bit n y OR x = y * 2 ^ n + x"
proof -
  have "push_bit n y + x = push_bit n y OR x"
  proof (rule disjunctive_add)
    fix k
    have "take_bit n x = x" using assms by (simp add: take_bit_nat_eq_self)
    then have "bit x k \<Longrightarrow> k < n" by (metis bit_take_bit_iff)
    then show "\<not> bit (push_bit n y) k \<or> \<not> bit x k"
      by (auto simp: bit_push_bit_iff)
  qed
  then show ?thesis by (simp add: push_bit_eq_mult)
qed

lemma or4_add:
  assumes "b < 16" "c < 16" "d < (16::nat)"
  shows "push_bit 12 a OR push_bit 8 b OR push_bit 4 c OR d = a * 4096 + b * 256 + c * 16 + d"
proof -
  have 1: "push_bit 4 c OR d = c * 16 + d" using or_low [of d 4 c] assms by simp
  have 2: "push_bit 8 b OR (c * 16 + d) = b * 256 + (c * 16 + d)"
    using or_low [of "c * 16 + d" 8 b] assms by simp
  have 3: "push_bit 12 a OR (b * 256 + (c * 16 + d)) = a * 4096 + (b * 256 + (c * 16 + d))"
    using or_low [of "b * 256 + (c * 16 + d)" 12 a] assms by simp
  show ?thesis by (simp add: 1 2 3)
qed

lemma unpackRow_div:
  "unpackRow r = [r div 4096 mod 16, r div 256 mod 16, r div 16 mod 16, r mod 16]"
  by (simp add: unpackRow_def and_15 drop_bit_eq_div)

lemma packRow_nibbles:
  "b < 16 \<Longrightarrow> c < 16 \<Longrightarrow> d < 16 \<Longrightarrow> packRow [a, b, c, d] = a * 4096 + b * 256 + c * 16 + d"
  by (simp add: packRow_def or4_add)

lemma nib_div: "d < 16 \<Longrightarrow> (q * 16 + d) div 16 = (q::nat)"
  by simp

lemma nib_mod: "d < 16 \<Longrightarrow> (q * 16 + d) mod 16 = (d::nat)"
  by simp

lemma nibble_sum:
  fixes a b c d :: nat
  assumes "b < 16" "c < 16" "d < 16"
  defines "n \<equiv> a * 4096 + b * 256 + c * 16 + d"
  shows "n mod 16 = d" "n div 16 mod 16 = c" "n div 256 mod 16 = b" "n div 4096 = a"
proof -
  have e: "n = ((a * 16 + b) * 16 + c) * 16 + d" by (simp add: n_def)
  have d1: "n div 16 = (a * 16 + b) * 16 + c" unfolding e by (rule nib_div [OF assms(3)])
  have "n div 256 = n div 16 div 16" using div_mult2_eq [of n 16 16] by simp
  then have d2: "n div 256 = a * 16 + b" unfolding d1 by (simp only: nib_div [OF assms(2)])
  have "n div 4096 = n div 256 div 16" using div_mult2_eq [of n 256 16] by simp
  then show "n div 4096 = a" unfolding d2 by (simp only: nib_div [OF assms(1)])
  show "n mod 16 = d" unfolding e by (rule nib_mod [OF assms(3)])
  show "n div 16 mod 16 = c" unfolding d1 by (rule nib_mod [OF assms(2)])
  show "n div 256 mod 16 = b" unfolding d2 by (rule nib_mod [OF assms(1)])
qed

lemma unpack_pack:
  "a < 16 \<Longrightarrow> b < 16 \<Longrightarrow> c < 16 \<Longrightarrow> d < 16 \<Longrightarrow> unpackRow (packRow [a, b, c, d]) = [a, b, c, d]"
  by (simp add: packRow_nibbles unpackRow_div nibble_sum)

lemma pack_unpack: "r < 65536 \<Longrightarrow> packRow (unpackRow r) = r"
proof -
  assume r: "r < 65536"
  have "packRow (unpackRow r) = r div 4096 mod 16 * 4096 + r div 256 mod 16 * 256 + r div 16 mod 16 * 16 + r mod 16"
    by (simp add: unpackRow_div packRow_nibbles)
  also have "\<dots> = r"
    using r mod_mult2_eq [of r 16 16] mod_mult2_eq [of r 256 16] mod_mult2_eq [of r 4096 16]
    by simp
  finally show ?thesis .
qed

lemma unpackRow_bound: "list_all (\<lambda>x. x < 16) (unpackRow r)"
  by (simp add: unpackRow_div)

lemma unpackRow_length: "length (unpackRow r) = 4"
  by (simp add: unpackRow_div)

lemma pad_loop_eq: "pad_loop xs = xs @ replicate (4 - length xs) 0"
proof (induction xs rule: pad_loop.induct)
  case (1 merged)
  show ?case
  proof (cases "length merged < 4")
    case True
    then have "pad_loop merged = pad_loop (merged @ [0])" by (simp add: pad_loop.simps [of merged])
    also have "\<dots> = (merged @ [0]) @ replicate (4 - length (merged @ [0])) 0" using True "1" by simp
    also have "\<dots> = merged @ replicate (4 - length merged) 0"
      using True by (simp add: replicate_app_Cons_same Suc_diff_Suc flip: replicate_Suc)
    finally show ?thesis .
  next
    case False
    then show ?thesis by (simp add: pad_loop.simps [of merged])
  qed
qed

section \<open>The loop of slideAndMerge and the worded rule\<close>

lemma js_shl1_small: "n < 31 \<Longrightarrow> js_shl1 n = 2 ^ n"
  by (simp add: js_shl1_def)

lemma merge_loop_ref:
  "\<forall>x\<in>set nz. x \<noteq> 0 \<and> x < 16 \<Longrightarrow>
   merge_loop nz i merged g = (merged @ ref_cells (drop i nz), g + ref_gain (drop i nz))"
proof (induction nz i merged g rule: merge_loop.induct)
  case (1 nonZero i merged g)
  note nz = "1.prems"
  show ?case
  proof (cases "i < length nonZero")
    case False
    then show ?thesis by (simp add: merge_loop.simps [of nonZero i])
  next
    case True
    note i = True
    show ?thesis
    proof (cases "i + 1 < length nonZero")
      case False
      with i have d: "drop i nonZero = [nonZero ! i]" "drop (Suc i) nonZero = []"
        by (simp_all add: Cons_nth_drop_Suc [symmetric])
      have "merge_loop nonZero i merged g = merge_loop nonZero (i + 1) (merged @ [nonZero ! i]) g"
        using i False by (simp add: merge_loop.simps [of nonZero i])
      also have "\<dots> = ((merged @ [nonZero ! i]) @ ref_cells (drop (i + 1) nonZero),
                         g + ref_gain (drop (i + 1) nonZero))"
        using "1.IH"(2) i False nz by simp
      finally show ?thesis by (simp add: d)
    next
      case True
      note i1 = True
      define x where "x = nonZero ! i"
      define y where "y = nonZero ! (i + 1)"
      have d: "drop i nonZero = x # y # drop (Suc (Suc i)) nonZero"
        "drop (Suc i) nonZero = y # drop (Suc (Suc i)) nonZero"
        using i i1 by (simp_all add: x_def y_def Cons_nth_drop_Suc)
      have xin: "x \<in> set nonZero" using i by (simp add: x_def)
      show ?thesis
      proof (cases "x = y")
        case True
        have x0: "x \<noteq> 0" "x + 1 < 31" using xin nz by auto
        have "merge_loop nonZero i merged g =
              merge_loop nonZero (i + 2) (merged @ [x + 1]) (g + js_shl1 (x + 1))"
          using i i1 True x0 by (simp add: merge_loop.simps [of nonZero i] x_def y_def Let_def)
        also have "\<dots> = ((merged @ [x + 1]) @ ref_cells (drop (i + 2) nonZero),
                          (g + js_shl1 (x + 1)) + ref_gain (drop (i + 2) nonZero))"
          using "1.IH"(1) [of "x + 1"] i i1 True x0 nz by (simp add: x_def y_def)
        finally show ?thesis using True x0 js_shl1_small [of "x + 1"] by (simp add: d)
      next
        case False
        have "merge_loop nonZero i merged g = merge_loop nonZero (i + 1) (merged @ [x]) g"
          using i i1 False by (simp add: merge_loop.simps [of nonZero i] x_def y_def)
        also have "\<dots> = ((merged @ [x]) @ ref_cells (drop (i + 1) nonZero),
                           g + ref_gain (drop (i + 1) nonZero))"
          using "1.IH"(2) i i1 False nz by (simp add: x_def y_def)
        finally show ?thesis using False by (simp add: d)
      qed
    qed
  qed
qed

lemma slideAndMerge_ref:
  assumes "\<forall>x\<in>set exps. x < 16"
  shows "slideAndMerge exps = ref_slide exps"
proof -
  have "\<forall>x\<in>set (filter (\<lambda>x. x \<noteq> 0) exps). x \<noteq> 0 \<and> x < 16" using assms by simp
  from merge_loop_ref [OF this, of 0 "[]" 0] show ?thesis
    by (simp add: slideAndMerge_def ref_slide_def pad_loop_eq Let_def)
qed

lemma ref_cells_length: "length (ref_cells xs) \<le> length xs"
  by (induction xs rule: ref_cells.induct) auto

lemma ref_slide_length: "length exps = 4 \<Longrightarrow> length (fst (ref_slide exps)) = 4"
proof -
  assume l: "length exps = 4"
  have "length (ref_cells (filter (\<lambda>x. x \<noteq> 0) exps)) \<le> length (filter (\<lambda>x. x \<noteq> 0) exps)"
    by (rule ref_cells_length)
  also have "\<dots> \<le> 4" using length_filter_le [of "\<lambda>x. x \<noteq> 0" exps] l by simp
  finally show ?thesis by (simp add: ref_slide_def Let_def)
qed

lemma list4: "length xs = 4 \<Longrightarrow> \<exists>a b c d. xs = [a, b, c, d]"
  by (auto simp: length_Suc_conv eval_nat_numeral)

lemma left_entry_ref:
  "left_entry r = \<lparr>row = packRow (fst (ref_slide (unpackRow r))),
                      gained = snd (ref_slide (unpackRow r))\<rparr>"
proof -
  have "\<forall>x\<in>set (unpackRow r). x < 16" by (simp add: unpackRow_div)
  then have "slideAndMerge (unpackRow r) = ref_slide (unpackRow r)" by (rule slideAndMerge_ref)
  then show ?thesis by (simp add: left_entry_def unpackRow_def Let_def)
qed

section \<open>The LEFT table against the worded rule\<close>

text \<open>
  The LEFT entry of a row in 0..65535 stores \<open>packRow\<close> of the cells the
  worded rule gives, and its gain. \<open>packRow\<close> does not mask its cells, so
  the four fields of the stored row are the cells of the rule only while those
  cells are below 16.
\<close>

lemma left_entry_packs_worded_rule:
  "r < 65536 \<Longrightarrow>
   moveTables DIR_LEFT r =
     Some \<lparr>row = packRow (fst (ref_slide (unpackRow r))),
           gained = snd (ref_slide (unpackRow r))\<rparr> \<and>
   (list_all (\<lambda>x. x < 16) (fst (ref_slide (unpackRow r))) \<longrightarrow>
      unpackRow (packRow (fst (ref_slide (unpackRow r)))) = fst (ref_slide (unpackRow r)))"
proof -
  assume r: "r < 65536"
  have len: "length (fst (ref_slide (unpackRow r))) = 4"
    by (rule ref_slide_length) (simp add: unpackRow_length)
  then obtain a b c d where cs: "fst (ref_slide (unpackRow r)) = [a, b, c, d]"
    using list4 by blast
  show ?thesis
    using r by (simp add: moveTables_def left_entry_ref cs unpack_pack)
qed

text \<open>Row exponents [2,2,2,2] give exponents [3,3,0,0] and gain 16.\<close>

lemma left_entry_of_2222:
  "(8738::nat) < 65536 \<and> unpackRow 8738 = [2, 2, 2, 2] \<and>
   ref_slide [2, 2, 2, 2] = ([3, 3, 0, 0], 16) \<and>
   list_all (\<lambda>x. x < 16) [3, 3, 0, 0::nat] \<and>
   moveTables DIR_LEFT 8738 = Some \<lparr>row = 13056, gained = 16\<rparr> \<and>
   unpackRow 13056 = [3, 3, 0, 0]"
  using left_entry_packs_worded_rule [of 8738]
  by (simp add: unpackRow_div ref_slide_def packRow_nibbles numeral_2_eq_2)

section \<open>Evaluating table entries\<close>

lemma replicate_small:
  "replicate 1 x = [x]" "replicate 2 x = [x, x]" "replicate 3 x = [x, x, x]"
  "replicate 4 x = [x, x, x, x]"
  by (simp_all add: eval_nat_numeral)

lemma right_entry_ref:
  "right_entry r = \<lparr>row = packRow (rev (fst (ref_slide (rev (unpackRow r))))),
                       gained = snd (ref_slide (rev (unpackRow r)))\<rparr>"
proof -
  have "\<forall>x\<in>set (rev (unpackRow r)). x < 16" by (simp add: unpackRow_div)
  then have "slideAndMerge (rev (unpackRow r)) = ref_slide (rev (unpackRow r))"
    by (rule slideAndMerge_ref)
  then show ?thesis by (simp add: right_entry_def unpackRow_def Let_def)
qed

section \<open>Merging two cells of exponent 15\<close>

text \<open>
  C1. The claim: for every packed row \<open>r\<close> in 0..65535 the LEFT entry is
  the worded slide-left-and-merge of the four exponents of \<open>r\<close>. Where two
  cells of exponent 15 merge, the rule gives a cell of exponent 16 and the
  entry does not hold it: at \<open>r = 0xFF00\<close>, exponents [15,15,0,0], the rule
  gives [16,0,0,0] and the entry stores 65536, whose four fields are
  [0,0,0,0]; at \<open>r = 0xEFF0\<close>, exponents [14,15,15,0], the rule gives
  [14,16,0,0] and the entry stores \<open>0xF000\<close>, fields [15,0,0,0], the very
  row stored for \<open>r = 0xF000\<close>. The gains are those of the rule.
\<close>

theorem left_entry_fields_differ_from_worded_rule:
  "unpackRow 65280 = [15, 15, 0, 0] \<and>
   ref_slide [15, 15, 0, 0] = ([16, 0, 0, 0], 65536) \<and>
   moveTables DIR_LEFT 65280 = Some \<lparr>row = 65536, gained = 65536\<rparr> \<and>
   unpackRow 65536 = [0, 0, 0, 0] \<and>
   unpackRow 61424 = [14, 15, 15, 0] \<and>
   ref_slide [14, 15, 15, 0] = ([14, 16, 0, 0], 65536) \<and>
   moveTables DIR_LEFT 61424 = Some \<lparr>row = 61440, gained = 65536\<rparr> \<and>
   unpackRow 61440 = [15, 0, 0, 0] \<and>
   ref_slide [15, 0, 0, 0] = ([15, 0, 0, 0], 0) \<and>
   moveTables DIR_LEFT 61440 = Some \<lparr>row = 61440, gained = 0\<rparr>"
  by (simp add: moveTables_def left_entry_ref unpackRow_div ref_slide_def replicate_small packRow_def)

text \<open>
  C7. The claim: for every \<open>r\<close> in 0..65535 the row stored in the LEFT entry
  (and in the RIGHT entry) is a 16-bit value of four fields in \<open>[0,15]\<close>.
  The source documents the stored row as \<open>newRow16\<close>, yet merging two cells
  of exponent 15 pushes the exponent 16 into \<open>packRow\<close>, which does not mask
  its cells: at \<open>r = 0xFF00\<close>, exponents [15,15,0,0], the LEFT entry stores
  65536, a 17-bit value, and \<open>setRow\<close> then writes four empty cells.
\<close>

theorem left_entry_exceeds_16_bits:
  "unpackRow 65280 = [15, 15, 0, 0] \<and>
   moveTables DIR_LEFT 65280 = Some \<lparr>row = 65536, gained = 65536\<rparr> \<and>
   \<not> (65536::nat) < 65536 \<and> unpackRow 65536 = [0, 0, 0, 0]"
  by (simp add: moveTables_def left_entry_ref unpackRow_div ref_slide_def replicate_small packRow_def)

text \<open>
  C6. The claim: the RIGHT entry of \<open>r\<close> is the mirror image of the LEFT
  entry of the mirrored row, with the same gain. The gains agree, but where
  two cells of exponent 15 merge the stored rows do not: at \<open>r = 0x00FF\<close>
  the RIGHT entry stores 16 (fields [0,0,1,0]) while the LEFT entry of the
  mirrored row \<open>0xFF00\<close> stores 65536, whose mirror image is 0; at
  \<open>r = 0xFFFF\<close> the RIGHT entry stores 272 and the LEFT entry 69632.
\<close>

theorem right_entry_not_mirror_of_left:
  "mirror 255 = 65280 \<and>
   moveTables DIR_RIGHT 255 = Some \<lparr>row = 16, gained = 65536\<rparr> \<and>
   moveTables DIR_LEFT (mirror 255) = Some \<lparr>row = 65536, gained = 65536\<rparr> \<and>
   mirror 65536 = 0 \<and>
   mirror 65535 = 65535 \<and>
   moveTables DIR_RIGHT 65535 = Some \<lparr>row = 272, gained = 131072\<rparr> \<and>
   moveTables DIR_LEFT (mirror 65535) = Some \<lparr>row = 69632, gained = 131072\<rparr> \<and>
   mirror 69632 = 1"
  by (simp add: mirror_def moveTables_def DIR_LEFT_def DIR_RIGHT_def left_entry_ref right_entry_ref unpackRow_div ref_slide_def replicate_small packRow_def)

text \<open>
  Away from that case the symmetry holds: the gains always agree, and the rows
  are mirror images whenever the slid-and-merged cells are below 16.
\<close>

lemma right_is_mirrored_left:
  assumes r: "r < 65536"
  shows "gained (right_entry r) = gained (left_entry (mirror r)) \<and>
         (list_all (\<lambda>x. x < 16) (fst (ref_slide (rev (unpackRow r)))) \<longrightarrow>
            row (right_entry r) = mirror (row (left_entry (mirror r))))"
proof -
  obtain a b c d where u: "unpackRow r = [a, b, c, d]" and b: "a < 16" "b < 16" "c < 16" "d < 16"
    by (simp add: unpackRow_div)
  have m: "mirror r = packRow [d, c, b, a]" by (simp add: mirror_def u)
  have um: "unpackRow (mirror r) = rev (unpackRow r)" using b by (simp add: m u unpack_pack)
  have len: "length (fst (ref_slide (rev (unpackRow r)))) = 4"
    by (rule ref_slide_length) (simp add: u)
  then obtain c0 c1 c2 c3 where cs: "fst (ref_slide (rev (unpackRow r))) = [c0, c1, c2, c3]"
    using list4 by blast
  have le: "left_entry (mirror r) =
      \<lparr>row = packRow [c0, c1, c2, c3], gained = snd (ref_slide (rev (unpackRow r)))\<rparr>"
    by (simp add: left_entry_ref um cs)
  have re: "right_entry r =
      \<lparr>row = packRow [c3, c2, c1, c0], gained = snd (ref_slide (rev (unpackRow r)))\<rparr>"
    by (simp add: right_entry_ref cs)
  have mm: "c0 < 16 \<Longrightarrow> c1 < 16 \<Longrightarrow> c2 < 16 \<Longrightarrow> c3 < 16 \<Longrightarrow>
      mirror (packRow [c0, c1, c2, c3]) = packRow [c3, c2, c1, c0]"
    by (simp add: mirror_def unpack_pack)
  show ?thesis by (simp add: le re cs mm)
qed

section \<open>Applying the LEFT transform twice\<close>

text \<open>
  C3 as stated fails: a merge can create a new pair of equal neighbours, which
  the second application merges. Exponents [2,2,3,0] give [3,3,0,0], and
  [3,3,0,0] gives [4,0,0,0].
\<close>

theorem left_not_idempotent:
  "unpackRow 8752 = [2, 2, 3, 0] \<and>
   moveTables DIR_LEFT 8752 = Some \<lparr>row = 13056, gained = 8\<rparr> \<and>
   unpackRow 13056 = [3, 3, 0, 0] \<and>
   moveTables DIR_LEFT 13056 = Some \<lparr>row = 16384, gained = 16\<rparr> \<and>
   \<not> left_idempotent_at 8752"
  by (simp add: left_idempotent_at_def moveTables_def left_entry_ref unpackRow_div ref_slide_def replicate_small packRow_nibbles)

lemma ref_cells_nonzero: "\<forall>x\<in>set xs. x \<noteq> 0 \<Longrightarrow> \<forall>x\<in>set (ref_cells xs). x \<noteq> 0"
  by (induction xs rule: ref_cells.induct) auto

lemma ref_cells_id:
  "(\<forall>i. Suc i < length xs \<longrightarrow> xs ! i \<noteq> xs ! Suc i) \<Longrightarrow> ref_cells xs = xs \<and> ref_gain xs = 0"
proof (induction xs rule: ref_cells.induct)
  case (1 x y xs)
  from "1.prems" [rule_format, of 0] have xy: "x \<noteq> y" by simp
  have "\<forall>i. Suc i < length (y # xs) \<longrightarrow> (y # xs) ! i \<noteq> (y # xs) ! Suc i"
  proof (intro allI impI)
    fix i assume "Suc i < length (y # xs)"
    with "1.prems" [rule_format, of "Suc i"] show "(y # xs) ! i \<noteq> (y # xs) ! Suc i" by simp
  qed
  with "1.IH"(2) xy show ?case by simp
qed simp_all

lemma filter_pad:
  "\<forall>x\<in>set ms. x \<noteq> 0 \<Longrightarrow> filter (\<lambda>x. x \<noteq> 0) (ms @ replicate k (0::nat)) = ms"
  by (induction ms) auto

lemma line_has_merge_iff:
  "line_has_merge cs \<longleftrightarrow> (\<exists>i<3. cs ! i \<noteq> 0 \<and> cs ! i = cs ! Suc i)"
  by (auto simp: line_has_merge_def numeral_3_eq_3 numeral_2_eq_2 less_Suc_eq)

lemma line_has_merge4:
  "line_has_merge [a, b, c, d] \<longleftrightarrow>
     (a \<noteq> 0 \<and> a = b) \<or> (b \<noteq> 0 \<and> b = c) \<or> (c \<noteq> 0 \<and> c = d)"
  by (simp add: line_has_merge_def)

lemma packRow_bound:
  "a < 16 \<Longrightarrow> b < 16 \<Longrightarrow> c < 16 \<Longrightarrow> d < 16 \<Longrightarrow> packRow [a, b, c, d] < 65536"
  by (simp add: packRow_nibbles)

lemma ref_slide_fixpoint:
  assumes ms: "\<forall>x\<in>set ms. x \<noteq> 0" and len: "length ms \<le> 4"
    and nm: "\<not> line_has_merge (ms @ replicate (4 - length ms) 0)"
  shows "ref_slide (ms @ replicate (4 - length ms) 0) = (ms @ replicate (4 - length ms) 0, 0)"
proof -
  have "\<forall>i. Suc i < length ms \<longrightarrow> ms ! i \<noteq> ms ! Suc i"
  proof (intro allI impI)
    fix i assume i: "Suc i < length ms"
    then have "i < 3" using len by simp
    with nm have "\<not> ((ms @ replicate (4 - length ms) 0) ! i \<noteq> 0 \<and>
        (ms @ replicate (4 - length ms) 0) ! i = (ms @ replicate (4 - length ms) 0) ! Suc i)"
      by (auto simp: line_has_merge_iff)
    moreover have "ms ! i \<noteq> 0" using ms i by simp
    ultimately show "ms ! i \<noteq> ms ! Suc i" using i by (simp add: nth_append)
  qed
  then have "ref_cells ms = ms \<and> ref_gain ms = 0" by (rule ref_cells_id)
  then show ?thesis using ms by (simp add: ref_slide_def filter_pad Let_def)
qed

text \<open>
  C3, amended. For every packed row \<open>r\<close> in 0..65535 whose slid-and-merged
  cells are all below 16 and hold no two adjacent equal non-zero exponents
  (in particular whenever nothing merged), applying the LEFT transform to the
  row of the LEFT entry of \<open>r\<close> returns that row unchanged.
\<close>

theorem left_idempotent_without_further_merge:
  assumes r: "r < 65536"
    and small: "list_all (\<lambda>x. x < 16) (fst (slideAndMerge (unpackRow r)))"
    and nm: "\<not> line_has_merge (fst (slideAndMerge (unpackRow r)))"
  shows "left_idempotent_at r"
proof -
  define nz where "nz = filter (\<lambda>x. x \<noteq> 0) (unpackRow r)"
  define ms where "ms = ref_cells nz"
  define cs where "cs = ms @ replicate (4 - length ms) 0"
  have ub: "\<forall>x\<in>set (unpackRow r). x < 16" by (simp add: unpackRow_div)
  have sm: "slideAndMerge (unpackRow r) = ref_slide (unpackRow r)"
    using ub by (rule slideAndMerge_ref)
  have cs: "fst (ref_slide (unpackRow r)) = cs"
    by (simp add: ref_slide_def cs_def ms_def nz_def Let_def)
  have ms0: "\<forall>x\<in>set ms. x \<noteq> 0"
    unfolding ms_def by (rule ref_cells_nonzero) (simp add: nz_def)
  have "length ms \<le> length nz" unfolding ms_def by (rule ref_cells_length)
  also have "\<dots> \<le> 4"
    using length_filter_le [of "\<lambda>x. x \<noteq> 0" "unpackRow r"] by (simp add: nz_def unpackRow_length)
  finally have len: "length ms \<le> 4" .
  have fp: "ref_slide cs = (cs, 0)"
    unfolding cs_def using ms0 len nm [unfolded sm cs cs_def] by (rule ref_slide_fixpoint)
  have "length cs = 4" using len by (simp add: cs_def)
  then obtain a b c d where abcd: "cs = [a, b, c, d]" using list4 by blast
  have bnd: "a < 16" "b < 16" "c < 16" "d < 16"
    using small by (simp_all add: sm cs abcd)
  have p: "packRow cs < 65536" unfolding abcd using bnd by (rule packRow_bound)
  have u: "unpackRow (packRow cs) = cs" unfolding abcd using bnd by (rule unpack_pack)
  have e1: "moveTables DIR_LEFT r = Some \<lparr>row = packRow cs, gained = snd (ref_slide (unpackRow r))\<rparr>"
    using r by (simp add: moveTables_def left_entry_ref cs)
  have e2: "moveTables DIR_LEFT (packRow cs) = Some \<lparr>row = packRow cs, gained = 0\<rparr>"
    using p by (simp add: moveTables_def left_entry_ref u fp)
  show ?thesis by (simp add: left_idempotent_at_def e1 e2)
qed

theorem left_idempotent_without_further_merge_witness:
  "(13088::nat) < 65536 \<and> unpackRow 13088 = [3, 3, 2, 0] \<and>
   slideAndMerge [3, 3, 2, 0] = ([4, 2, 0, 0], 16) \<and>
   list_all (\<lambda>x. x < 16) [4, 2, 0, 0::nat] \<and> \<not> line_has_merge [4, 2, 0, 0] \<and>
   left_idempotent_at 13088"
  using left_idempotent_without_further_merge [of 13088]
  by (simp add: slideAndMerge_ref ref_slide_def unpackRow_div replicate_small line_has_merge4)

section \<open>The grid accessors\<close>

lemma u8_store_length: "length (u8_store g i v) = length g"
  by (simp add: u8_store_def)

lemma u8_store_nth:
  "v < 256 \<Longrightarrow> i < length g \<Longrightarrow> u8_store g i v ! j = (if j = i then v else g ! j)"
  by (simp add: u8_store_def)

lemma nibble_lt_256: "(x::nat) mod 16 < 256"
  by (rule less_trans [of _ 16]) simp_all

lemma setRow_length: "length (setRow r p g) = length g"
  by (simp add: setRow_def Let_def u8_store_length)

lemma setCol_length: "length (setCol c p g) = length g"
  by (simp add: setCol_def Let_def u8_store_length)

lemma setRow_nth:
  assumes "length g = 16" "r < 4"
  shows "setRow r p g ! j =
     (if j = r * 4 then p div 4096 mod 16
      else if j = r * 4 + 1 then p div 256 mod 16
      else if j = r * 4 + 2 then p div 16 mod 16
      else if j = r * 4 + 3 then p mod 16
      else g ! j)"
  using assms
  by (simp add: setRow_def Let_def u8_store_length u8_store_nth nibble_lt_256 and_15 drop_bit_eq_div)

lemma setCol_nth:
  assumes "length g = 16" "c < 4"
  shows "setCol c p g ! j =
     (if j = c then p div 4096 mod 16
      else if j = 4 + c then p div 256 mod 16
      else if j = 8 + c then p div 16 mod 16
      else if j = 12 + c then p mod 16
      else g ! j)"
  using assms
  by (simp add: setCol_def Let_def u8_store_length u8_store_nth nibble_lt_256 and_15 drop_bit_eq_div)

lemma wf_grid_nth: "wf_grid g \<Longrightarrow> i < 16 \<Longrightarrow> g ! i < 16"
  by (simp add: wf_grid_def list_all_length)

lemma wf_setRow: "wf_grid g \<Longrightarrow> r < 4 \<Longrightarrow> wf_grid (setRow r p g)"
  by (simp add: wf_grid_def list_all_length setRow_length setRow_nth)

lemma wf_setCol: "wf_grid g \<Longrightarrow> c < 4 \<Longrightarrow> wf_grid (setCol c p g)"
  by (simp add: wf_grid_def list_all_length setCol_length setCol_nth)

lemma getCol_packRow: "getCol g c = packRow [g ! c, g ! (4 + c), g ! (8 + c), g ! (12 + c)]"
  by (simp add: getCol_def packRow_def)

lemma getRow_bound: "wf_grid g \<Longrightarrow> r < 4 \<Longrightarrow> getRow g r < 65536"
  unfolding getRow_def by (rule packRow_bound) (simp_all add: wf_grid_nth)

lemma getCol_bound: "wf_grid g \<Longrightarrow> c < 4 \<Longrightarrow> getCol g c < 65536"
  unfolding getCol_packRow by (rule packRow_bound) (simp_all add: wf_grid_nth)

lemma unpack_getRow:
  "wf_grid g \<Longrightarrow> r < 4 \<Longrightarrow>
   unpackRow (getRow g r) = [g ! (r * 4), g ! (r * 4 + 1), g ! (r * 4 + 2), g ! (r * 4 + 3)]"
  unfolding getRow_def by (rule unpack_pack) (simp_all add: wf_grid_nth)

lemma unpack_getCol:
  "wf_grid g \<Longrightarrow> c < 4 \<Longrightarrow>
   unpackRow (getCol g c) = [g ! c, g ! (4 + c), g ! (8 + c), g ! (12 + c)]"
  unfolding getCol_packRow by (rule unpack_pack) (simp_all add: wf_grid_nth)

lemma move_loop_total:
  assumes rd: "\<And>g l. wf_grid g \<Longrightarrow> l < 4 \<Longrightarrow> rd g l < 65536"
    and wr: "\<And>g l p. wf_grid g \<Longrightarrow> l < 4 \<Longrightarrow> wf_grid (wr l p g)"
    and t: "t = DIR_LEFT \<or> t = DIR_RIGHT"
  shows "wf_grid g \<Longrightarrow> \<forall>l\<in>set ls. l < 4 \<Longrightarrow>
     \<exists>g' m' gn'. move_loop rd wr t ls (g, m, gn) = Inr (g', m', gn') \<and> wf_grid g'"
proof (induction ls arbitrary: g m gn)
  case Nil
  then show ?case by simp
next
  case (Cons l ls)
  have l: "l < 4" using Cons.prems by simp
  have "rd g l < 65536" using Cons.prems(1) l by (rule rd)
  then obtain e where e: "moveTables t (rd g l) = Some e"
    using t by (auto simp: moveTables_def DIR_LEFT_def DIR_RIGHT_def)
  have "wf_grid (if rd g l \<noteq> row e then wr l (row e) g else g)"
    using Cons.prems(1) l by (simp add: wr)
  from Cons.IH [OF this] Cons.prems(2) e show ?case by (simp add: Let_def)
qed

lemma move_lines_total:
  "wf_grid g \<Longrightarrow> \<exists>g' m gn. move_lines g dir = Inr (g', m, gn) \<and> wf_grid g'"
  using move_loop_total [of getRow setRow DIR_LEFT g "[0, 1, 2, 3]" False 0]
        move_loop_total [of getRow setRow DIR_RIGHT g "[0, 1, 2, 3]" False 0]
        move_loop_total [of getCol setCol DIR_LEFT g "[0, 1, 2, 3]" False 0]
        move_loop_total [of getCol setCol DIR_RIGHT g "[0, 1, 2, 3]" False 0]
  by (auto simp: move_lines_def getRow_bound getCol_bound wf_setRow wf_setCol
      simp del: move_loop.simps)

section \<open>Evaluating moves on concrete grids\<close>

lemma list_update_Cons_numeral:
  "(x # xs)[numeral n := y] = x # xs[pred_numeral n := y]"
  by (simp add: numeral_eq_Suc)

lemma upt_16: "[0..<16] = [0, 1, 2, 3, 4, 5, 6, 7, 8, 9, 10, 11, 12, 13, 14, 15]"
  by (simp add: upt_rec)

lemmas table_eval =
  moveTables_def DIR_LEFT_def DIR_RIGHT_def DIR_UP_def DIR_DOWN_def left_entry_ref right_entry_ref
  unpackRow_div ref_slide_def replicate_small packRow_nibbles

lemmas grid_eval =
  getRow_def getCol_packRow setRow_def setCol_def u8_store_def and_15 drop_bit_eq_div
  list_update_Cons_numeral Let_def

lemmas spawn_eval = addRandomTile_def randomEmptyCellIndex_def upt_16 u8_store_def
  list_update_Cons_numeral Let_def

lemma ex_lines:
  "move_lines [2, 2, 0, 0, 0, 0, 0, 0, 0, 0, 0, 0, 0, 0, 0, 3] DIR_LEFT =
     Inr ([3, 0, 0, 0, 0, 0, 0, 0, 0, 0, 0, 0, 3, 0, 0, 0], True, 8)"
  by (simp add: move_lines_def table_eval grid_eval)

lemma ex_spawn:
  "addRandomTile [3, 0, 0, 0, 0, 0, 0, 0, 0, 0, 0, 0, 3, 0, 0, 0] (1 / 2) (19 / 20) =
     ([3, 0, 0, 0, 0, 0, 0, 0, 2, 0, 0, 0, 3, 0, 0, 0], True)"
  by (simp add: spawn_eval)

lemma ex_lines_unmoved:
  "move_lines [2, 0, 0, 0, 0, 0, 0, 0, 3, 2, 0, 0, 0, 0, 0, 0] DIR_LEFT =
     Inr ([2, 0, 0, 0, 0, 0, 0, 0, 3, 2, 0, 0, 0, 0, 0, 0], False, 0)"
  by (simp add: move_lines_def table_eval grid_eval)

text \<open>
  The 17-bit LEFT entry of exponents [15,15,0,0] in a move: the two tiles of
  exponent 15 leave four empty cells, and the move gains 65536.
\<close>

lemma ex_lines_overflow:
  "move_lines [15, 15, 0, 0, 0, 0, 0, 0, 0, 0, 0, 0, 0, 0, 0, 0] DIR_LEFT =
     Inr ([0, 0, 0, 0, 0, 0, 0, 0, 0, 0, 0, 0, 0, 0, 0, 0], True, 65536)"
  by (simp add: move_lines_def table_eval grid_eval)

section \<open>Moves without effect\<close>

text \<open>
  C10. For every state and every direction value other than LEFT, RIGHT, UP
  and DOWN, \<open>move\<close> returns false, leaves grid, score and best score as they
  were and spawns nothing.
\<close>

theorem other_direction_is_no_op:
  "dir \<noteq> DIR_LEFT \<Longrightarrow> dir \<noteq> DIR_RIGHT \<Longrightarrow> dir \<noteq> DIR_UP \<Longrightarrow> dir \<noteq> DIR_DOWN \<Longrightarrow>
   move s dir u1 u2 = Inr (s, False)"
  by (simp add: move_def move_lines_def)

theorem other_direction_is_no_op_witness:
  "(7::int) \<noteq> DIR_LEFT \<and> 7 \<noteq> DIR_RIGHT \<and> 7 \<noteq> DIR_UP \<and> 7 \<noteq> DIR_DOWN \<and>
   move \<lparr>grid = [2, 2, 0, 0, 0, 0, 0, 0, 0, 0, 0, 0, 0, 0, 0, 3], score = 20, best = 36\<rparr> 7 0 0 =
     Inr (\<lparr>grid = [2, 2, 0, 0, 0, 0, 0, 0, 0, 0, 0, 0, 0, 0, 0, 3], score = 20, best = 36\<rparr>, False)"
  using other_direction_is_no_op
    [of 7 "\<lparr>grid = [2, 2, 0, 0, 0, 0, 0, 0, 0, 0, 0, 0, 0, 0, 0, 3], score = 20, best = 36\<rparr>" 0 0]
  by (simp add: DIR_LEFT_def DIR_RIGHT_def DIR_UP_def DIR_DOWN_def)

lemma move_loop_unmoved:
  "move_loop rd wr t ls (g, m, gn) = Inr (g', False, gn') \<Longrightarrow> g' = g \<and> \<not> m"
proof (induction ls arbitrary: g m gn)
  case Nil
  then show ?case by simp
next
  case (Cons l ls)
  then show ?case
    by (auto simp: Let_def split: option.splits if_splits)
qed

lemma move_lines_unmoved: "move_lines g dir = Inr (g', False, gn) \<Longrightarrow> g' = g"
  by (auto simp: move_lines_def simp del: move_loop.simps split: if_splits dest: move_loop_unmoved)

text \<open>
  C4. For every state and direction, when \<open>move\<close> returns false (no row or
  column changed) the grid, the score and the best score are exactly as
  before, so no tile was spawned.
\<close>

theorem unchanged_move_has_no_effect:
  "move s dir u1 u2 = Inr (s', False) \<Longrightarrow>
   grid s' = grid s \<and> score s' = score s \<and> best s' = best s \<and> s' = s"
proof -
  assume mv: "move s dir u1 u2 = Inr (s', False)"
  then obtain g gn where ml: "move_lines (grid s) dir = Inr (g, False, gn)"
    and s': "s' = \<lparr>grid = g, score = score s, best = best s\<rparr>"
    by (auto simp: move_def Let_def split: sum.splits if_splits)
  from move_lines_unmoved [OF ml] have "g = grid s" .
  with s' show ?thesis by simp
qed

theorem unchanged_move_has_no_effect_witness:
  "move \<lparr>grid = [2, 0, 0, 0, 0, 0, 0, 0, 3, 2, 0, 0, 0, 0, 0, 0], score = 20, best = 24\<rparr>
     DIR_LEFT 0 0 =
     Inr (\<lparr>grid = [2, 0, 0, 0, 0, 0, 0, 0, 3, 2, 0, 0, 0, 0, 0, 0], score = 20, best = 24\<rparr>, False)"
  using unchanged_move_has_no_effect
    [of "\<lparr>grid = [2, 0, 0, 0, 0, 0, 0, 0, 3, 2, 0, 0, 0, 0, 0, 0], score = 20, best = 24\<rparr>"
        DIR_LEFT 0 0
        "\<lparr>grid = [2, 0, 0, 0, 0, 0, 0, 0, 3, 2, 0, 0, 0, 0, 0, 0], score = 20, best = 24\<rparr>"]
  by (simp add: move_def ex_lines_unmoved)

section \<open>Scores\<close>

lemma ref_gain_nonneg: "0 \<le> ref_gain xs"
  by (induction xs rule: ref_gain.induct) auto

lemma moveTables_gain_nonneg: "moveTables t r = Some e \<Longrightarrow> 0 \<le> gained e"
  by (auto simp: moveTables_def left_entry_ref right_entry_ref ref_slide_def Let_def ref_gain_nonneg
      split: if_splits)

lemma move_loop_gain:
  "move_loop rd wr t ls (g, m, gn) = Inr (g', m', gn') \<Longrightarrow> gn \<le> gn'"
proof (induction ls arbitrary: g m gn)
  case Nil
  then show ?case by simp
next
  case (Cons l ls)
  from Cons.prems obtain e where e: "moveTables t (rd g l) = Some e"
    by (auto simp: Let_def split: option.splits)
  with Cons.prems have "move_loop rd wr t ls
      (if rd g l \<noteq> row e then wr l (row e) g else g, m \<or> rd g l \<noteq> row e, gn + gained e) =
      Inr (g', m', gn')"
    by (simp add: Let_def)
  from Cons.IH [OF this] moveTables_gain_nonneg [OF e] show ?case by simp
qed

lemma move_lines_gain: "move_lines g dir = Inr (g', m, gn) \<Longrightarrow> 0 \<le> gn"
  by (auto simp: move_lines_def simp del: move_loop.simps split: if_splits dest: move_loop_gain)

text \<open>
  C8. On every state of the data model \<open>move\<close> returns; the score grows by
  the gain of the move, which is not negative, when the move changed a line
  and stays otherwise; the best score becomes the score when the score
  exceeds it and stays otherwise; so neither decreases. A reset sets the
  score to 0.
\<close>

theorem scores_never_decrease:
  "wf_grid (grid s) \<Longrightarrow>
   \<exists>s' m g gn.
     move_lines (grid s) dir = Inr (g, m, gn) \<and> 0 \<le> gn \<and>
     move s dir u1 u2 = Inr (s', m) \<and>
     score s' = (if m then score s + gn else score s) \<and>
     best s' = (if m \<and> best s < score s' then score s' else best s) \<and>
     score s \<le> score s' \<and> best s \<le> best s' \<and>
     score (reset s' v1 v2 v3 v4) = 0"
proof -
  assume "wf_grid (grid s)"
  then obtain g m gn where ml: "move_lines (grid s) dir = Inr (g, m, gn)"
    using move_lines_total by blast
  have gn: "0 \<le> gn" using ml by (rule move_lines_gain)
  have rs: "\<And>s'. score (reset s' v1 v2 v3 v4) = 0" by (simp add: reset_def Let_def)
  show ?thesis
  proof (cases m)
    case True
    then show ?thesis using ml gn rs by (auto simp: move_def Let_def)
  next
    case False
    then show ?thesis using ml gn rs by (auto simp: move_def)
  qed
qed

theorem scores_never_decrease_witness:
  "wf_grid [2, 2, 0, 0, 0, 0, 0, 0, 0, 0, 0, 0, 0, 0, 0, 3] \<and>
   move \<lparr>grid = [2, 2, 0, 0, 0, 0, 0, 0, 0, 0, 0, 0, 0, 0, 0, 3], score = 20, best = 24\<rparr>
     DIR_LEFT (1 / 2) (19 / 20) =
     Inr (\<lparr>grid = [3, 0, 0, 0, 0, 0, 0, 0, 2, 0, 0, 0, 3, 0, 0, 0], score = 28, best = 28\<rparr>, True)"
  using scores_never_decrease
    [of "\<lparr>grid = [2, 2, 0, 0, 0, 0, 0, 0, 0, 0, 0, 0, 0, 0, 0, 3], score = 20, best = 24\<rparr>"
        DIR_LEFT "1 / 2" "19 / 20"]
  by (simp add: wf_grid_def move_def ex_lines ex_spawn)

section \<open>Spawning and reset\<close>

lemma random_index_bound:
  assumes "0 \<le> u" "u < 1" "0 < n"
  shows "nat \<lfloor>u * of_nat n\<rfloor> < n"
proof -
  have "u * of_nat n < of_nat n" using assms by simp
  then have "\<lfloor>u * of_nat n\<rfloor> < int n" by (simp add: floor_less_iff)
  moreover have "0 \<le> \<lfloor>u * of_nat n\<rfloor>" using assms by simp
  ultimately show ?thesis by linarith
qed

lemma randomEmptyCellIndex_picks:
  assumes z: "\<exists>i<16. g ! i = 0" and u: "0 \<le> u" "u < 1"
  shows "\<exists>i<16. g ! i = 0 \<and> randomEmptyCellIndex g u = int i"
proof -
  define empties where "empties = filter (\<lambda>i. g ! i = 0) [0..<16]"
  from z have ne: "0 < length empties"
    by (auto simp: empties_def filter_empty_conv)
  define k where "k = nat \<lfloor>u * of_nat (length empties)\<rfloor>"
  have "k < length empties" unfolding k_def using u ne by (rule random_index_bound)
  then have "empties ! k \<in> set empties" by simp
  then have "empties ! k < 16 \<and> g ! (empties ! k) = 0" by (simp add: empties_def)
  moreover have "randomEmptyCellIndex g u = int (empties ! k)"
    using ne by (simp add: randomEmptyCellIndex_def empties_def k_def Let_def)
  ultimately show ?thesis by blast
qed

lemma addRandomTile_spawns:
  assumes len: "length g = 16" and z: "\<exists>i<16. g ! i = 0" and u: "0 \<le> u1" "u1 < 1"
  shows "\<exists>i v. i < 16 \<and> g ! i = 0 \<and> (v = 1 \<or> v = 2) \<and> addRandomTile g u1 u2 = (g[i := v], True)"
proof -
  from randomEmptyCellIndex_picks [OF z u] obtain i
    where i: "i < 16" "g ! i = 0" "randomEmptyCellIndex g u1 = int i" by blast
  show ?thesis
  proof (cases "u2 < 8106479329266893 / 9007199254740992")
    case True
    then have "addRandomTile g u1 u2 = (g[i := 1], True)"
      using i len by (simp add: addRandomTile_def u8_store_def Let_def)
    with i show ?thesis by blast
  next
    case False
    then have "addRandomTile g u1 u2 = (g[i := 2], True)"
      using i len by (simp add: addRandomTile_def u8_store_def Let_def)
    with i show ?thesis by blast
  qed
qed

lemma nonempty_count_spawn:
  assumes "i < length g" "g ! i = 0" "v \<noteq> 0"
  shows "nonempty_count (g[i := v]) = nonempty_count g + 1"
proof -
  have g: "g = take i g @ g ! i # drop (Suc i) g" using assms(1) by (simp add: id_take_nth_drop)
  have "g[i := v] = take i g @ v # drop (Suc i) g" using assms(1) by (rule upd_conv_take_nth_drop)
  then have "nonempty_count (g[i := v]) =
      length (filter (\<lambda>x. x \<noteq> 0) (take i g)) + 1 + length (filter (\<lambda>x. x \<noteq> 0) (drop (Suc i) g))"
    using assms(3) by (simp add: nonempty_count_def)
  moreover have "nonempty_count g =
      length (filter (\<lambda>x. x \<noteq> 0) (take i g)) + length (filter (\<lambda>x. x \<noteq> 0) (drop (Suc i) g))"
    using assms(2) by (subst g) (simp add: nonempty_count_def)
  ultimately show ?thesis by simp
qed

text \<open>
  C9. From any state (its grid the 16-cell array), the reset gives score 0
  and a grid with exactly two non-empty cells, each of exponent 1 or 2, every
  other cell empty.
\<close>

theorem reset_yields_two_tiles:
  assumes len: "length (grid s) = 16" and u: "0 \<le> u1" "u1 < 1" "0 \<le> u3" "u3 < 1"
  shows "score (reset s u1 u2 u3 u4) = 0 \<and>
         length (grid (reset s u1 u2 u3 u4)) = 16 \<and>
         nonempty_count (grid (reset s u1 u2 u3 u4)) = 2 \<and>
         list_all (\<lambda>x. x = 0 \<or> x = 1 \<or> x = 2) (grid (reset s u1 u2 u3 u4))"
proof -
  define g0 where "g0 = map (\<lambda>_. 0::nat) (grid s)"
  have g0: "length g0 = 16" "\<forall>i<16. g0 ! i = 0" using len by (simp_all add: g0_def)
  have c0: "nonempty_count g0 = 0" by (simp add: nonempty_count_def g0_def)
  have a0: "list_all (\<lambda>x. x = 0 \<or> x = 1 \<or> x = 2) g0" by (simp add: g0_def list_all_iff)
  from g0 have "\<exists>i<16. g0 ! i = 0" by (intro exI [of _ 0]) simp
  from addRandomTile_spawns [OF g0(1) this u(1,2), of u2] obtain i1 v1
    where s1: "i1 < 16" "g0 ! i1 = 0" "v1 = 1 \<or> v1 = 2" "addRandomTile g0 u1 u2 = (g0[i1 := v1], True)"
    by blast
  define g1 where "g1 = g0[i1 := v1]"
  have g1: "length g1 = 16" using g0 by (simp add: g1_def)
  have c1: "nonempty_count g1 = 1"
    unfolding g1_def using nonempty_count_spawn [of i1 g0 v1] s1 g0 c0 by auto
  have a1: "list_all (\<lambda>x. x = 0 \<or> x = 1 \<or> x = 2) g1"
    using a0 s1(3) unfolding g1_def list_all_iff by (auto dest: set_update_subset_insert [THEN subsetD])
  have "\<exists>i<16. g1 ! i = 0"
  proof (cases "i1 = 0")
    case True
    then have "g1 ! 1 = 0" using g0 by (simp add: g1_def)
    then show ?thesis by (intro exI [of _ 1]) simp
  next
    case False
    then have "g1 ! 0 = 0" using g0 by (simp add: g1_def)
    then show ?thesis by (intro exI [of _ 0]) simp
  qed
  from addRandomTile_spawns [OF g1 this u(3,4), of u4] obtain i2 v2
    where s2: "i2 < 16" "g1 ! i2 = 0" "v2 = 1 \<or> v2 = 2" "addRandomTile g1 u3 u4 = (g1[i2 := v2], True)"
    by blast
  define g2 where "g2 = g1[i2 := v2]"
  have g2: "length g2 = 16" using g1 by (simp add: g2_def)
  have c2: "nonempty_count g2 = 2"
    unfolding g2_def using nonempty_count_spawn [of i2 g1 v2] s2 g1 c1 by auto
  have a2: "list_all (\<lambda>x. x = 0 \<or> x = 1 \<or> x = 2) g2"
    using a1 s2(3) unfolding g2_def list_all_iff by (auto dest: set_update_subset_insert [THEN subsetD])
  have "reset s u1 u2 u3 u4 = \<lparr>grid = g2, score = 0, best = best s\<rparr>"
    by (simp add: reset_def Let_def g0_def [symmetric] s1(4) g1_def [symmetric] s2(4) g2_def [symmetric])
  then show ?thesis using g2 c2 a2 by simp
qed

theorem reset_yields_two_tiles_witness:
  "length [2, 2, 0, 0, 0, 0, 0, 0, 0, 0, 0, 0, 0, 0, 0, 3::nat] = 16 \<and>
   (0::rat) \<le> 1 / 2 \<and> (1 / 2 :: rat) < 1 \<and> (0::rat) \<le> 1 / 5 \<and> (1 / 5 :: rat) < 1 \<and>
   reset \<lparr>grid = [2, 2, 0, 0, 0, 0, 0, 0, 0, 0, 0, 0, 0, 0, 0, 3], score = 20, best = 24\<rparr>
     (1 / 2) (19 / 20) (1 / 5) (19 / 20) =
     \<lparr>grid = [0, 0, 0, 2, 0, 0, 0, 0, 2, 0, 0, 0, 0, 0, 0, 0], score = 0, best = 24\<rparr> \<and>
   nonempty_count [0, 0, 0, 2, 0, 0, 0, 0, 2, 0, 0, 0, 0, 0, 0, 0] = 2"
  using reset_yields_two_tiles
    [of "\<lparr>grid = [2, 2, 0, 0, 0, 0, 0, 0, 0, 0, 0, 0, 0, 0, 0, 3], score = 20, best = 24\<rparr>"
        "1 / 2" "1 / 5" "19 / 20" "19 / 20"]
  by (simp add: reset_def spawn_eval nonempty_count_def)

section \<open>Terminal detection\<close>

lemma all_less_3: "(\<forall>i<3. P i) \<longleftrightarrow> P 0 \<and> P 1 \<and> P (2::nat)"
  by (auto simp: eval_nat_numeral less_Suc_eq)

lemma all_less_4: "(\<forall>i<4. P i) \<longleftrightarrow> P 0 \<and> P 1 \<and> P 2 \<and> P (3::nat)"
  by (auto simp: eval_nat_numeral less_Suc_eq)

lemma all_less_16: "(\<forall>i<16. P i) \<longleftrightarrow> list_all P [0..<16]"
  by (auto simp: list_all_iff)

lemma ex_less_3: "(\<exists>i<3. P i) \<longleftrightarrow> P 0 \<or> P 1 \<or> P (2::nat)"
  by (auto simp: eval_nat_numeral less_Suc_eq)

lemma ex_less_4: "(\<exists>i<4. P i) \<longleftrightarrow> P 0 \<or> P 1 \<or> P 2 \<or> P (3::nat)"
  by (auto simp: eval_nat_numeral less_Suc_eq)

lemma ex_less_16: "(\<exists>i<16. P i) \<longleftrightarrow> list_ex P [0..<16]"
  by (auto simp: list_ex_iff)

lemma canMove_explicit:
  assumes "wf_grid g"
  shows "canMove g \<longleftrightarrow>
     list_ex (\<lambda>i. g ! i = 0) [0..<16] \<or>
     list_ex (\<lambda>r. line_has_merge [g ! (r * 4), g ! (r * 4 + 1), g ! (r * 4 + 2), g ! (r * 4 + 3)])
       [0, 1, 2, 3] \<or>
     list_ex (\<lambda>c. line_has_merge [g ! c, g ! (4 + c), g ! (8 + c), g ! (12 + c)]) [0, 1, 2, 3]"
proof -
  have r: "\<And>r. r < 4 \<Longrightarrow> unpackRow (getRow g r) =
      [g ! (r * 4), g ! (r * 4 + 1), g ! (r * 4 + 2), g ! (r * 4 + 3)]"
    using assms by (rule unpack_getRow)
  have c: "\<And>c. c < 4 \<Longrightarrow> unpackRow (getCol g c) = [g ! c, g ! (4 + c), g ! (8 + c), g ! (12 + c)]"
    using assms by (rule unpack_getCol)
  have R: "list_ex (\<lambda>r. line_has_merge (unpackRow (getRow g r))) [0, 1, 2, 3] =
        list_ex (\<lambda>r. line_has_merge [g ! (r * 4), g ! (r * 4 + 1), g ! (r * 4 + 2), g ! (r * 4 + 3)])
          [0, 1, 2, 3]"
    by (rule list_ex_cong) (auto simp: r)
  have C: "list_ex (\<lambda>c. line_has_merge (unpackRow (getCol g c))) [0, 1, 2, 3] =
        list_ex (\<lambda>c. line_has_merge [g ! c, g ! (4 + c), g ! (8 + c), g ! (12 + c)]) [0, 1, 2, 3]"
    by (rule list_ex_cong) (auto simp: c)
  show ?thesis unfolding canMove_def R C by (simp only: split: if_splits) blast
qed

lemma canMove_iff:
  assumes "wf_grid g"
  shows "canMove g \<longleftrightarrow>
     (\<exists>i<16. g ! i = 0) \<or>
     (\<exists>r<4. \<exists>c<3. g ! (r * 4 + c) \<noteq> 0 \<and> g ! (r * 4 + c) = g ! (r * 4 + c + 1)) \<or>
     (\<exists>c<4. \<exists>r<3. g ! (r * 4 + c) \<noteq> 0 \<and> g ! (r * 4 + c) = g ! ((r + 1) * 4 + c))"
  unfolding canMove_explicit [OF assms] ex_less_16 ex_less_4 ex_less_3
  by (simp add: line_has_merge4 disj_ac numeral_2_eq_2 [symmetric] numeral_3_eq_3 [symmetric])

text \<open>
  C2. On every grid of the data model, \<open>canMove\<close> returns false exactly when
  all 16 cells are non-zero and no row and no column holds two adjacent equal
  exponents; it returns true exactly when some cell is empty, or some row has
  two horizontally adjacent equal non-zero exponents, or some column has two
  vertically adjacent equal non-zero exponents. Cell \<open>(r, c)\<close> is
  \<open>g ! (r * 4 + c)\<close>.
\<close>

theorem canMove_characterisation:
  assumes "wf_grid g"
  shows "(\<not> canMove g \<longleftrightarrow>
            (\<forall>i<16. g ! i \<noteq> 0) \<and>
            (\<forall>r<4. \<forall>c<3. g ! (r * 4 + c) \<noteq> g ! (r * 4 + c + 1)) \<and>
            (\<forall>c<4. \<forall>r<3. g ! (r * 4 + c) \<noteq> g ! ((r + 1) * 4 + c))) \<and>
         (canMove g \<longleftrightarrow>
            (\<exists>i<16. g ! i = 0) \<or>
            (\<exists>r<4. \<exists>c<3. g ! (r * 4 + c) \<noteq> 0 \<and> g ! (r * 4 + c) = g ! (r * 4 + c + 1)) \<or>
            (\<exists>c<4. \<exists>r<3. g ! (r * 4 + c) \<noteq> 0 \<and> g ! (r * 4 + c) = g ! ((r + 1) * 4 + c)))"
proof (rule conjI)
  note cm = canMove_iff [OF assms]
  show "\<not> canMove g \<longleftrightarrow>
            (\<forall>i<16. g ! i \<noteq> 0) \<and>
            (\<forall>r<4. \<forall>c<3. g ! (r * 4 + c) \<noteq> g ! (r * 4 + c + 1)) \<and>
            (\<forall>c<4. \<forall>r<3. g ! (r * 4 + c) \<noteq> g ! ((r + 1) * 4 + c))"
  proof
    assume n: "\<not> canMove g"
    have nz: "\<forall>i<16. g ! i \<noteq> 0"
    proof (intro allI impI notI)
      fix i :: nat assume "i < 16" "g ! i = 0"
      then have "\<exists>i<16. g ! i = 0" by (intro exI [of _ i]) simp
      then have "canMove g" unfolding cm by (rule disjI1)
      with n show False by simp
    qed
    have "\<forall>r<4. \<forall>c<3. g ! (r * 4 + c) \<noteq> g ! (r * 4 + c + 1)"
    proof (intro allI impI notI)
      fix r c :: nat assume rc: "r < 4" "c < 3" and e: "g ! (r * 4 + c) = g ! (r * 4 + c + 1)"
      from rc have "r * 4 + c < 16" by simp
      then have "g ! (r * 4 + c) \<noteq> 0" using nz by simp
      with rc e have "\<exists>r<4. \<exists>c<3. g ! (r * 4 + c) \<noteq> 0 \<and> g ! (r * 4 + c) = g ! (r * 4 + c + 1)"
        by (intro exI [of _ r] conjI exI [of _ c])
      then have "canMove g" unfolding cm by (intro disjI2 disjI1)
      with n show False by simp
    qed
    moreover have "\<forall>c<4. \<forall>r<3. g ! (r * 4 + c) \<noteq> g ! ((r + 1) * 4 + c)"
    proof (intro allI impI notI)
      fix r c :: nat assume rc: "c < 4" "r < 3" and e: "g ! (r * 4 + c) = g ! ((r + 1) * 4 + c)"
      from rc have "r * 4 + c < 16" by simp
      then have "g ! (r * 4 + c) \<noteq> 0" using nz by simp
      with rc e have "\<exists>c<4. \<exists>r<3. g ! (r * 4 + c) \<noteq> 0 \<and> g ! (r * 4 + c) = g ! ((r + 1) * 4 + c)"
        by (intro exI [of _ c] conjI exI [of _ r])
      then have "canMove g" unfolding cm by (intro disjI2)
      with n show False by simp
    qed
    ultimately show "(\<forall>i<16. g ! i \<noteq> 0) \<and>
            (\<forall>r<4. \<forall>c<3. g ! (r * 4 + c) \<noteq> g ! (r * 4 + c + 1)) \<and>
            (\<forall>c<4. \<forall>r<3. g ! (r * 4 + c) \<noteq> g ! ((r + 1) * 4 + c))"
      using nz by (intro conjI)
  next
    assume "(\<forall>i<16. g ! i \<noteq> 0) \<and>
            (\<forall>r<4. \<forall>c<3. g ! (r * 4 + c) \<noteq> g ! (r * 4 + c + 1)) \<and>
            (\<forall>c<4. \<forall>r<3. g ! (r * 4 + c) \<noteq> g ! ((r + 1) * 4 + c))"
    then show "\<not> canMove g" unfolding cm by auto
  qed
  show "canMove g \<longleftrightarrow>
            (\<exists>i<16. g ! i = 0) \<or>
            (\<exists>r<4. \<exists>c<3. g ! (r * 4 + c) \<noteq> 0 \<and> g ! (r * 4 + c) = g ! (r * 4 + c + 1)) \<or>
            (\<exists>c<4. \<exists>r<3. g ! (r * 4 + c) \<noteq> 0 \<and> g ! (r * 4 + c) = g ! ((r + 1) * 4 + c))"
    by (rule cm)
qed

theorem canMove_characterisation_witness:
  "wf_grid [2, 3, 2, 3, 3, 2, 3, 2, 2, 3, 2, 3, 3, 2, 3, 2] \<and>
   \<not> canMove [2, 3, 2, 3, 3, 2, 3, 2, 2, 3, 2, 3, 3, 2, 3, 2] \<and>
   list_all (\<lambda>x. x \<noteq> 0) [2, 3, 2, 3, 3, 2, 3, 2, 2, 3, 2, 3, 3, 2, 3, 2::nat]"
proof -
  let ?g = "[2, 3, 2, 3, 3, 2, 3, 2, 2, 3, 2, 3, 3, 2, 3, 2] :: nat list"
  have wf: "wf_grid ?g" by (simp add: wf_grid_def)
  have rhs: "(\<forall>i<16. ?g ! i \<noteq> 0) \<and>
        (\<forall>r<4. \<forall>c<3. ?g ! (r * 4 + c) \<noteq> ?g ! (r * 4 + c + 1)) \<and>
        (\<forall>c<4. \<forall>r<3. ?g ! (r * 4 + c) \<noteq> ?g ! ((r + 1) * 4 + c))"
    unfolding all_less_16 all_less_4 all_less_3 upt_16 by simp
  have "\<not> canMove ?g"
    by (rule canMove_characterisation [OF wf, THEN conjunct1, THEN iffD2]) (rule rhs)
  with wf show ?thesis by simp
qed

section \<open>The spawn after an effective move\<close>

subsection \<open>A changed line has an empty cell\<close>

lemma ref_slide_shape:
  assumes "a < 16" "b < 16" "c < 16" "d < 16"
  shows "\<exists>c0 c1 c2 c3. fst (ref_slide [a, b, c, d]) = [c0, c1, c2, c3] \<and>
           ([c0, c1, c2, c3] \<noteq> [a, b, c, d] \<longrightarrow> c3 = 0) \<and>
           c0 \<le> 16 \<and> c1 \<le> 16 \<and> c2 \<le> 16 \<and> c3 < 16 \<and>
           (16 \<le> c2 \<longrightarrow> c1 < 16 \<and> c0 < 16)"
  using assms by (auto simp: ref_slide_def Let_def replicate_small)

lemma or_less_exp:
  fixes x y :: nat
  assumes "x < 2 ^ n" "y < 2 ^ n"
  shows "x OR y < 2 ^ n"
proof -
  have "take_bit n (x OR y) = x OR y" using assms by (simp add: take_bit_nat_eq_self)
  then show ?thesis by (simp only: take_bit_nat_eq_self_iff)
qed

lemma packRow_last_zero: "packRow [c0, c1, c2, 0] mod 16 = 0"
proof -
  have "take_bit 4 (packRow [c0, c1, c2, 0]) = 0"
    by (simp add: packRow_def take_bit_push_bit)
  then show ?thesis by (simp add: take_bit_eq_mod)
qed

lemma packRow_rev_small:
  assumes "c0 \<le> 16" "c1 \<le> 16" "c2 < 16"
  shows "packRow [0, c2, c1, c0] div 4096 mod 16 = 0"
proof -
  have "push_bit 8 c2 < 2 ^ 12" "push_bit 4 c1 < 2 ^ 12" "c0 < 2 ^ 12"
    using assms by (simp_all add: push_bit_eq_mult)
  then have "push_bit 8 c2 OR push_bit 4 c1 OR c0 < 2 ^ 12"
    by (intro or_less_exp)
  then show ?thesis by (simp add: packRow_def)
qed

lemma packRow_rev_overflow:
  assumes "c0 < 16" "c1 < 16"
  shows "packRow [0, 16, c1, c0] div 256 mod 16 = 0"
proof -
  have 1: "push_bit 4 c1 OR c0 = c1 * 16 + c0" using or_low [of c0 4 c1] assms by simp
  have 2: "4096 OR (c1 * 16 + c0) = 4096 + (c1 * 16 + c0)"
    using or_low [of "c1 * 16 + c0" 12 1] assms by simp
  have "(1 * 4096 + 0 * 256 + c1 * 16 + c0) div 256 mod 16 = 0"
    using assms by (intro nibble_sum(3)) simp_all
  then show ?thesis by (simp add: packRow_def 1 2 add.assoc)
qed

lemma left_changed_zero:
  assumes r: "r < 65536" and ch: "row (left_entry r) \<noteq> r"
  shows "row (left_entry r) mod 16 = 0"
proof -
  obtain a b c d where u: "unpackRow r = [a, b, c, d]" and b: "a < 16" "b < 16" "c < 16" "d < 16"
    by (simp add: unpackRow_div)
  from ref_slide_shape [OF b] obtain c0 c1 c2 c3
    where cs: "fst (ref_slide [a, b, c, d]) = [c0, c1, c2, c3]"
      and z: "[c0, c1, c2, c3] \<noteq> [a, b, c, d] \<longrightarrow> c3 = 0" by blast
  have rw: "row (left_entry r) = packRow [c0, c1, c2, c3]" by (simp add: left_entry_ref u cs)
  have "[c0, c1, c2, c3] \<noteq> [a, b, c, d]"
  proof
    assume "[c0, c1, c2, c3] = [a, b, c, d]"
    then have "row (left_entry r) = packRow (unpackRow r)" by (simp add: rw u)
    with ch pack_unpack [OF r] show False by simp
  qed
  with z have "c3 = 0" by blast
  then show ?thesis by (simp add: rw packRow_last_zero)
qed

lemma right_changed_zero:
  assumes r: "r < 65536" and ch: "row (right_entry r) \<noteq> r"
  shows "row (right_entry r) div 4096 mod 16 = 0 \<or> row (right_entry r) div 256 mod 16 = 0"
proof -
  obtain a b c d where u: "unpackRow r = [a, b, c, d]" and b: "d < 16" "c < 16" "b < 16" "a < 16"
    by (simp add: unpackRow_div)
  from ref_slide_shape [OF b] obtain c0 c1 c2 c3
    where cs: "fst (ref_slide [d, c, b, a]) = [c0, c1, c2, c3]"
      and z: "[c0, c1, c2, c3] \<noteq> [d, c, b, a] \<longrightarrow> c3 = 0"
      and bd: "c0 \<le> 16" "c1 \<le> 16" "c2 \<le> 16"
      and ov: "16 \<le> c2 \<longrightarrow> c1 < 16 \<and> c0 < 16" by blast
  have rw: "row (right_entry r) = packRow [c3, c2, c1, c0]" by (simp add: right_entry_ref u cs)
  have "[c0, c1, c2, c3] \<noteq> [d, c, b, a]"
  proof
    assume "[c0, c1, c2, c3] = [d, c, b, a]"
    then have "row (right_entry r) = packRow (unpackRow r)" by (simp add: rw u)
    with ch pack_unpack [OF r] show False by simp
  qed
  with z have c3: "c3 = 0" by blast
  show ?thesis
  proof (cases "c2 < 16")
    case True
    with bd have "packRow [0, c2, c1, c0] div 4096 mod 16 = 0" by (intro packRow_rev_small)
    then show ?thesis by (simp add: rw c3)
  next
    case False
    with bd ov have "c2 = 16" "c1 < 16" "c0 < 16" by auto
    then have "packRow [0, c2, c1, c0] div 256 mod 16 = 0" by (simp add: packRow_rev_overflow)
    then show ?thesis by (simp add: rw c3)
  qed
qed

subsection \<open>The loop keeps an empty cell in every changed line\<close>

lemma moveTables_Some:
  "moveTables t r = Some e \<Longrightarrow>
   r < 65536 \<and> (t = DIR_LEFT \<and> e = left_entry r \<or> t = DIR_RIGHT \<and> e = right_entry r)"
  by (auto simp: moveTables_def split: if_splits)

lemma move_loop_zero:
  assumes frame: "\<And>g l p i. length g = 16 \<Longrightarrow> l < 4 \<Longrightarrow> i < 16 \<Longrightarrow> lineof i \<noteq> l \<Longrightarrow>
                    wr l p g ! i = g ! i"
    and len: "\<And>g l p. length (wr l p g) = length g"
    and zero: "\<And>g l e. length g = 16 \<Longrightarrow> l < 4 \<Longrightarrow> moveTables t (rd g l) = Some e \<Longrightarrow>
                    rd g l \<noteq> row e \<Longrightarrow> \<exists>i<16. lineof i = l \<and> wr l (row e) g ! i = 0"
  shows "move_loop rd wr t ls (g, m, gn) = Inr (g', m', gn') \<Longrightarrow> length g = 16 \<Longrightarrow>
     distinct ls \<Longrightarrow> \<forall>l\<in>set ls. l < 4 \<Longrightarrow>
     (m \<longrightarrow> (\<exists>i<16. g ! i = 0 \<and> lineof i \<notin> set ls)) \<Longrightarrow>
     length g' = 16 \<and> (m' \<longrightarrow> (\<exists>i<16. g' ! i = 0))"
proof (induction ls arbitrary: g m gn)
  case Nil
  then show ?case by auto
next
  case (Cons l ls)
  have l: "l < 4" "l \<notin> set ls" using Cons.prems by simp_all
  from Cons.prems(1) obtain e where e: "moveTables t (rd g l) = Some e"
    by (auto simp: Let_def split: option.splits)
  define g1 where "g1 = (if rd g l \<noteq> row e then wr l (row e) g else g)"
  define m1 where "m1 = (m \<or> rd g l \<noteq> row e)"
  have run: "move_loop rd wr t ls (g1, m1, gn + gained e) = Inr (g', m', gn')"
    using Cons.prems(1) e by (simp add: Let_def g1_def m1_def)
  have len1: "length g1 = 16" using Cons.prems(2) by (simp add: g1_def len)
  have inv: "m1 \<longrightarrow> (\<exists>i<16. g1 ! i = 0 \<and> lineof i \<notin> set ls)"
  proof
    assume m1
    show "\<exists>i<16. g1 ! i = 0 \<and> lineof i \<notin> set ls"
    proof (cases "rd g l \<noteq> row e")
      case True
      from zero [OF Cons.prems(2) l(1) e True] obtain i
        where "i < 16" "lineof i = l" "wr l (row e) g ! i = 0" by blast
      with True l(2) show ?thesis by (auto simp: g1_def)
    next
      case False
      with \<open>m1\<close> have m by (simp add: m1_def)
      with Cons.prems(5) obtain i where "i < 16" "g ! i = 0" "lineof i \<notin> set (l # ls)" by blast
      with False show ?thesis by (auto simp: g1_def)
    qed
  qed
  from Cons.IH [OF run len1 _ _ inv] Cons.prems(3,4) show ?case by simp
qed

lemma col_index_mod:
  "l < 4 \<Longrightarrow> (4 + l) mod 4 = (l::nat)" "l < 4 \<Longrightarrow> (8 + l) mod 4 = (l::nat)"
  "l < 4 \<Longrightarrow> (12 + l) mod 4 = (l::nat)"
  by presburger+

lemma row_index_div:
  "(l * 4) div 4 = (l::nat)" "(l * 4 + 1) div 4 = l" "(l * 4 + 2) div 4 = l" "(l * 4 + 3) div 4 = l"
  by simp_all

lemma setRow_frame:
  "length g = 16 \<Longrightarrow> l < 4 \<Longrightarrow> i < 16 \<Longrightarrow> i div 4 \<noteq> l \<Longrightarrow> setRow l p g ! i = g ! i"
  by (auto simp: setRow_nth row_index_div)

lemma setCol_frame:
  "length g = 16 \<Longrightarrow> l < 4 \<Longrightarrow> i < 16 \<Longrightarrow> i mod 4 \<noteq> l \<Longrightarrow> setCol l p g ! i = g ! i"
  by (auto simp: setCol_nth col_index_mod)

lemma setRow_left_zero:
  assumes "length g = 16" "l < 4" "moveTables DIR_LEFT (getRow g l) = Some e" "getRow g l \<noteq> row e"
  shows "\<exists>i<16. i div 4 = l \<and> setRow l (row e) g ! i = 0"
proof -
  from moveTables_Some [OF assms(3)] have "getRow g l < 65536" "e = left_entry (getRow g l)"
    by (auto simp: DIR_LEFT_def DIR_RIGHT_def)
  with assms(4) left_changed_zero [of "getRow g l"] have "row e mod 16 = 0" by auto
  then have "setRow l (row e) g ! (l * 4 + 3) = 0" using assms(1,2) by (simp add: setRow_nth)
  moreover have "l * 4 + 3 < 16" "(l * 4 + 3) div 4 = l" using assms(2) by simp_all
  ultimately show ?thesis by blast
qed

lemma setCol_left_zero:
  assumes "length g = 16" "l < 4" "moveTables DIR_LEFT (getCol g l) = Some e" "getCol g l \<noteq> row e"
  shows "\<exists>i<16. i mod 4 = l \<and> setCol l (row e) g ! i = 0"
proof -
  from moveTables_Some [OF assms(3)] have "getCol g l < 65536" "e = left_entry (getCol g l)"
    by (auto simp: DIR_LEFT_def DIR_RIGHT_def)
  with assms(4) left_changed_zero [of "getCol g l"] have "row e mod 16 = 0" by auto
  then have "setCol l (row e) g ! (12 + l) = 0" using assms(1,2) by (simp add: setCol_nth)
  moreover have "12 + l < 16" "(12 + l) mod 4 = l" using assms(2) by (simp_all add: col_index_mod)
  ultimately show ?thesis by blast
qed

lemma setRow_right_zero:
  assumes "length g = 16" "l < 4" "moveTables DIR_RIGHT (getRow g l) = Some e" "getRow g l \<noteq> row e"
  shows "\<exists>i<16. i div 4 = l \<and> setRow l (row e) g ! i = 0"
proof -
  from moveTables_Some [OF assms(3)] have "getRow g l < 65536" "e = right_entry (getRow g l)"
    by (auto simp: DIR_LEFT_def DIR_RIGHT_def)
  with assms(4) right_changed_zero [of "getRow g l"]
  have "row e div 4096 mod 16 = 0 \<or> row e div 256 mod 16 = 0" by auto
  then have "setRow l (row e) g ! (l * 4) = 0 \<or> setRow l (row e) g ! (l * 4 + 1) = 0"
    using assms(1,2) by (auto simp: setRow_nth)
  moreover have "l * 4 < 16" "(l * 4) div 4 = l" "l * 4 + 1 < 16" "(l * 4 + 1) div 4 = l"
    using assms(2) by simp_all
  ultimately show ?thesis by blast
qed

lemma setCol_right_zero:
  assumes "length g = 16" "l < 4" "moveTables DIR_RIGHT (getCol g l) = Some e" "getCol g l \<noteq> row e"
  shows "\<exists>i<16. i mod 4 = l \<and> setCol l (row e) g ! i = 0"
proof -
  from moveTables_Some [OF assms(3)] have "getCol g l < 65536" "e = right_entry (getCol g l)"
    by (auto simp: DIR_LEFT_def DIR_RIGHT_def)
  with assms(4) right_changed_zero [of "getCol g l"]
  have "row e div 4096 mod 16 = 0 \<or> row e div 256 mod 16 = 0" by auto
  then have "setCol l (row e) g ! l = 0 \<or> setCol l (row e) g ! (4 + l) = 0"
    using assms(1,2) by (auto simp: setCol_nth)
  moreover have "l < 16" "l mod 4 = l" "4 + l < 16" "(4 + l) mod 4 = l"
    using assms(2) by (simp_all add: col_index_mod)
  ultimately show ?thesis by blast
qed

lemma setRow_zero:
  assumes "t = DIR_LEFT \<or> t = DIR_RIGHT" "length g = 16" "l < 4"
    "moveTables t (getRow g l) = Some e" "getRow g l \<noteq> row e"
  shows "\<exists>i<16. i div 4 = l \<and> setRow l (row e) g ! i = 0"
  using assms setRow_left_zero [of g l e] setRow_right_zero [of g l e] by blast

lemma setCol_zero:
  assumes "t = DIR_LEFT \<or> t = DIR_RIGHT" "length g = 16" "l < 4"
    "moveTables t (getCol g l) = Some e" "getCol g l \<noteq> row e"
  shows "\<exists>i<16. i mod 4 = l \<and> setCol l (row e) g ! i = 0"
  using assms setCol_left_zero [of g l e] setCol_right_zero [of g l e] by blast

lemma rows_zero:
  assumes t: "t = DIR_LEFT \<or> t = DIR_RIGHT"
    and run: "move_loop getRow setRow t [0, 1, 2, 3] (g, False, 0) = Inr (g', True, gn)"
    and len: "length g = 16"
  shows "length g' = 16 \<and> (\<exists>i<16. g' ! i = 0)"
proof -
  have "length g' = 16 \<and> (True \<longrightarrow> (\<exists>i<16. g' ! i = 0))"
  proof (rule move_loop_zero [where rd = getRow and wr = setRow and t = t
        and lineof = "\<lambda>i. i div 4" and ls = "[0, 1, 2, 3]" and g = g and m = False and gn = 0
        and gn' = gn])
    show "move_loop getRow setRow t [0, 1, 2, 3] (g, False, 0) = Inr (g', True, gn)" by (rule run)
    show "length g = 16" by (rule len)
    show "distinct [0, 1, 2, 3::nat]" by simp
    show "\<forall>l\<in>set [0, 1, 2, 3::nat]. l < 4" by simp
    show "False \<longrightarrow> (\<exists>i<16. g ! i = 0 \<and> i div 4 \<notin> set [0, 1, 2, 3])" by simp
  next
    fix g :: "nat list" and l p i :: nat
    assume "length g = 16" "l < 4" "i < 16" "i div 4 \<noteq> l"
    then show "setRow l p g ! i = g ! i" by (rule setRow_frame)
  next
    fix g :: "nat list" and l p :: nat
    show "length (setRow l p g) = length g" by (rule setRow_length)
  next
    fix g :: "nat list" and l :: nat and e :: entry
    assume "length g = 16" "l < 4" "moveTables t (getRow g l) = Some e" "getRow g l \<noteq> row e"
    with t show "\<exists>i<16. i div 4 = l \<and> setRow l (row e) g ! i = 0" by (rule setRow_zero)
  qed
  then show ?thesis by simp
qed

lemma cols_zero:
  assumes t: "t = DIR_LEFT \<or> t = DIR_RIGHT"
    and run: "move_loop getCol setCol t [0, 1, 2, 3] (g, False, 0) = Inr (g', True, gn)"
    and len: "length g = 16"
  shows "length g' = 16 \<and> (\<exists>i<16. g' ! i = 0)"
proof -
  have "length g' = 16 \<and> (True \<longrightarrow> (\<exists>i<16. g' ! i = 0))"
  proof (rule move_loop_zero [where rd = getCol and wr = setCol and t = t
        and lineof = "\<lambda>i. i mod 4" and ls = "[0, 1, 2, 3]" and g = g and m = False and gn = 0
        and gn' = gn])
    show "move_loop getCol setCol t [0, 1, 2, 3] (g, False, 0) = Inr (g', True, gn)" by (rule run)
    show "length g = 16" by (rule len)
    show "distinct [0, 1, 2, 3::nat]" by simp
    show "\<forall>l\<in>set [0, 1, 2, 3::nat]. l < 4" by simp
    show "False \<longrightarrow> (\<exists>i<16. g ! i = 0 \<and> i mod 4 \<notin> set [0, 1, 2, 3])" by simp
  next
    fix g :: "nat list" and l p i :: nat
    assume "length g = 16" "l < 4" "i < 16" "i mod 4 \<noteq> l"
    then show "setCol l p g ! i = g ! i" by (rule setCol_frame)
  next
    fix g :: "nat list" and l p :: nat
    show "length (setCol l p g) = length g" by (rule setCol_length)
  next
    fix g :: "nat list" and l :: nat and e :: entry
    assume "length g = 16" "l < 4" "moveTables t (getCol g l) = Some e" "getCol g l \<noteq> row e"
    with t show "\<exists>i<16. i mod 4 = l \<and> setCol l (row e) g ! i = 0" by (rule setCol_zero)
  qed
  then show ?thesis by simp
qed

lemma move_lines_zero:
  assumes ml: "move_lines g dir = Inr (g', True, gn)" and len: "length g = 16"
  shows "length g' = 16 \<and> (\<exists>i<16. g' ! i = 0)"
proof -
  have "(\<exists>t. (t = DIR_LEFT \<or> t = DIR_RIGHT) \<and>
            move_loop getRow setRow t [0, 1, 2, 3] (g, False, 0) = Inr (g', True, gn)) \<or>
        (\<exists>t. (t = DIR_LEFT \<or> t = DIR_RIGHT) \<and>
            move_loop getCol setCol t [0, 1, 2, 3] (g, False, 0) = Inr (g', True, gn))"
    using ml unfolding move_lines_def by (metis Inr_inject prod.inject)
  then show ?thesis using rows_zero [OF _ _ len] cols_zero [OF _ _ len] by blast
qed

text \<open>
  C5. For every state and direction, when \<open>move\<close> returns true exactly one
  cell that was empty after the slide/merge writes is filled with a tile of
  exponent 1 or 2, so the grid afterwards has exactly one more non-empty
  cell than right after those writes. (A changed line always holds an empty
  cell after its write, so the spawn never finds the grid full.)
\<close>

theorem effective_move_spawns_one_tile:
  assumes len: "length (grid s) = 16" and u: "0 \<le> u1" "u1 < 1"
    and mv: "move s dir u1 u2 = Inr (s', True)"
  shows "\<exists>g1 gn i v.
           move_lines (grid s) dir = Inr (g1, True, gn) \<and>
           i < 16 \<and> g1 ! i = 0 \<and> (v = 1 \<or> v = 2) \<and>
           grid s' = g1[i := v] \<and>
           nonempty_count (grid s') = nonempty_count g1 + 1"
proof -
  from mv obtain g1 gn where ml: "move_lines (grid s) dir = Inr (g1, True, gn)"
    and s': "grid s' = fst (addRandomTile g1 u1 u2)"
    by (auto simp: move_def Let_def split: sum.splits if_splits)
  from move_lines_zero [OF ml len] have g1: "length g1 = 16" "\<exists>i<16. g1 ! i = 0" by simp_all
  from addRandomTile_spawns [OF g1 u, of u2] obtain i v
    where sp: "i < 16" "g1 ! i = 0" "v = 1 \<or> v = 2" "addRandomTile g1 u1 u2 = (g1[i := v], True)"
    by blast
  have "nonempty_count (g1[i := v]) = nonempty_count g1 + 1"
    using sp g1(1) by (intro nonempty_count_spawn) auto
  with ml sp s' show ?thesis by auto
qed

theorem effective_move_spawns_one_tile_witness:
  "length [2, 2, 0, 0, 0, 0, 0, 0, 0, 0, 0, 0, 0, 0, 0, 3::nat] = 16 \<and>
   (0::rat) \<le> 1 / 2 \<and> (1 / 2 :: rat) < 1 \<and>
   move \<lparr>grid = [2, 2, 0, 0, 0, 0, 0, 0, 0, 0, 0, 0, 0, 0, 0, 3], score = 20, best = 24\<rparr>
     DIR_LEFT (1 / 2) (19 / 20) =
     Inr (\<lparr>grid = [3, 0, 0, 0, 0, 0, 0, 0, 2, 0, 0, 0, 3, 0, 0, 0], score = 28, best = 28\<rparr>, True) \<and>
   move_lines [2, 2, 0, 0, 0, 0, 0, 0, 0, 0, 0, 0, 0, 0, 0, 3] DIR_LEFT =
     Inr ([3, 0, 0, 0, 0, 0, 0, 0, 0, 0, 0, 0, 3, 0, 0, 0], True, 8) \<and>
   nonempty_count [3, 0, 0, 0, 0, 0, 0, 0, 0, 0, 0, 0, 3, 0, 0, 0] = 2 \<and>
   nonempty_count [3, 0, 0, 0, 0, 0, 0, 0, 2, 0, 0, 0, 3, 0, 0, 0] = 3"
  using effective_move_spawns_one_tile
    [of "\<lparr>grid = [2, 2, 0, 0, 0, 0, 0, 0, 0, 0, 0, 0, 0, 0, 0, 3], score = 20, best = 24\<rparr>"
        "1 / 2" DIR_LEFT "19 / 20"
        "\<lparr>grid = [3, 0, 0, 0, 0, 0, 0, 0, 2, 0, 0, 0, 3, 0, 0, 0], score = 28, best = 28\<rparr>"]
  by (simp add: move_def ex_lines ex_spawn nonempty_count_def)

end
